theory Spec2Isabelle
  imports Main "HOL-Library.Char_ord" "HOL-Library.List_Lexorder"
    "HOL-Library.Product_Lexorder" "HOL-Library.Sublist"
begin

section \<open>Python strings\<close>

text \<open>
  A Python \<open>str\<close> is a sequence of code points. The model keeps one \<^typ>\<open>char\<close> per code
  point and covers the code points below 256, which is where every literal of
  \<^verbatim>\<open>git_asistant.py\<close> lives. The accented letters of the Spanish messages are written
  with their code point.
\<close>

definition a_acute :: char where "a_acute = char_of (0xE1 :: nat)"
definition e_acute :: char where "e_acute = char_of (0xE9 :: nat)"
definition i_acute :: char where "i_acute = char_of (0xED :: nat)"
definition o_acute :: char where "o_acute = char_of (0xF3 :: nat)"
definition u_acute :: char where "u_acute = char_of (0xFA :: nat)"
definition n_tilde :: char where "n_tilde = char_of (0xF1 :: nat)"
definition inverted_bang :: char where "inverted_bang = char_of (0xA1 :: nat)"

definition isspace :: "char \<Rightarrow> bool" where
  \<comment> \<open>\<open>str.isspace\<close> on one code point below 256\<close>
  "isspace c = ((of_char c :: nat) \<in> {9, 10, 11, 12, 13, 28, 29, 30, 31, 32, 133, 160})"

definition strip :: "string \<Rightarrow> string" where
  \<comment> \<open>\<open>str.strip()\<close>\<close>
  "strip s = rev (dropWhile isspace (rev (dropWhile isspace s)))"

definition lower_char :: "char \<Rightarrow> char" where
  "lower_char c =
     (let n = (of_char c :: nat)
      in if (65 \<le> n \<and> n \<le> 90) \<or> (192 \<le> n \<and> n \<le> 222 \<and> n \<noteq> 215) then char_of (n + 32) else c)"

definition lower :: "string \<Rightarrow> string" where
  \<comment> \<open>\<open>str.lower()\<close>\<close>
  "lower s = map lower_char s"

definition is_linebreak :: "char \<Rightarrow> bool" where
  "is_linebreak c = ((of_char c :: nat) \<in> {10, 11, 12, 13, 28, 29, 30, 133})"

fun splitlines_from :: "string \<Rightarrow> string \<Rightarrow> string list" where
  "splitlines_from cur [] = (if cur = [] then [] else [cur])"
| "splitlines_from cur (c # cs) =
     (if is_linebreak c then
        (case cs of
           [] \<Rightarrow> [cur]
         | d # ds \<Rightarrow>
             if (of_char c :: nat) = 13 \<and> (of_char d :: nat) = 10
             then cur # splitlines_from [] ds
             else cur # splitlines_from [] (d # ds))
      else splitlines_from (cur @ [c]) cs)"

definition splitlines :: "string \<Rightarrow> string list" where
  \<comment> \<open>\<open>str.splitlines()\<close>\<close>
  "splitlines s = splitlines_from [] s"

fun join :: "string \<Rightarrow> string list \<Rightarrow> string" where
  \<comment> \<open>\<open>sep.join(parts)\<close>\<close>
  "join sep [] = []"
| "join sep [x] = x"
| "join sep (x # y # ys) = x @ sep @ join sep (y # ys)"

section \<open>Paths\<close>

text \<open>
  Every repository path is \<^verbatim>\<open>Path(...).expanduser().resolve()\<close>: an absolute path without
  \<^verbatim>\<open>.\<close> or \<^verbatim>\<open>..\<close>. A \<^verbatim>\<open>Path\<close> is modelled by the list of its components below the
  filesystem root; \<^verbatim>\<open>p / name\<close> is \<open>p @ [name]\<close>, \<^verbatim>\<open>p.parent\<close> drops the last component,
  and \<^verbatim>\<open>relative_to\<close> is the purely lexical prefix removal of pathlib. The result of
  \<^verbatim>\<open>relative_to\<close> is a relative path, again a list of components.
\<close>

type_synonym Path = "string list"

definition parent :: "Path \<Rightarrow> Path" where
  "parent p = butlast p"

definition str_abs :: "Path \<Rightarrow> string" where
  \<comment> \<open>\<open>str(p)\<close> for an absolute POSIX path\<close>
  "str_abs p = CHR ''/'' # join ''/'' p"

definition str_rel :: "Path \<Rightarrow> string" where
  \<comment> \<open>\<open>str(p)\<close> for a relative path; the empty relative path prints as a dot\<close>
  "str_rel p = (if p = [] then ''.'' else join ''/'' p)"

section \<open>Exceptions, subprocesses and the session state\<close>

datatype oserror = FileNotFoundError | PermissionError | NotADirectoryError

datatype exn =
    OSError oserror
  | RuntimeError "string list" int
  | NameError string
  | ValueError
  | SystemExit int

definition is_Exception :: "exn \<Rightarrow> bool" where
  \<comment> \<open>what \<^verbatim>\<open>except Exception\<close> catches: everything but \<^verbatim>\<open>SystemExit\<close>\<close>
  "is_Exception e = (case e of SystemExit _ \<Rightarrow> False | _ \<Rightarrow> True)"

datatype completed = CompletedProcess (returncode: int) (stdout: string) (stderr: string)

text \<open>
  \<^verbatim>\<open>subprocess.run(argv, ...)\<close> either runs the program to completion, whatever its exit
  status, or raises an \<^verbatim>\<open>OSError\<close> without running anything: \<^verbatim>\<open>FileNotFoundError\<close> when
  the executable (or the working directory) does not exist.
\<close>

datatype spawn = Ran completed | OSFail oserror

text \<open>
  The outside world (the repositories on disk, the installed tools) is a value of an
  arbitrary type \<open>'w\<close>. The two ways the program reaches it are the fields of the
  environment: running a subprocess with an argument vector and an optional working
  directory, and \<^verbatim>\<open>(repo / f).exists()\<close>.
\<close>

record 'w env =
  subprocess_run :: "'w \<Rightarrow> string list \<Rightarrow> string option \<Rightarrow> spawn \<times> 'w"
  path_exists :: "'w \<Rightarrow> Path \<Rightarrow> string \<Rightarrow> bool"

datatype out = Print string | Panel string string

text \<open>
  The three module-level ledgers keep their names. \<open>console\<close> is what has been printed
  (a \<open>Panel\<close> carries its content and its title, empty when it has none), \<open>spawned\<close> is
  the list of subprocess invocations made so far, and \<open>world\<close> is the outside world.
\<close>

record 'w session =
  TOUCHED_REPOS :: "Path list"
  FILES_ADDED_BY_REPO :: "string \<rightharpoonup> string list"
  BRANCH_CHANGED :: "string \<rightharpoonup> string \<times> string"
  console :: "out list"
  spawned :: "(string list \<times> string option) list"
  world :: 'w

type_synonym ('w, 'a) action = "'w session \<Rightarrow> (exn + 'a) \<times> 'w session"

definition console_print :: "out \<Rightarrow> 'w session \<Rightarrow> 'w session" where
  "console_print x s = s\<lparr>console := console s @ [x]\<rparr>"

definition and_then :: "(exn + 'a) \<times> 'w session \<Rightarrow> ('a \<Rightarrow> ('w, 'b) action) \<Rightarrow> (exn + 'b) \<times> 'w session" where
  \<comment> \<open>sequencing: an exception of the first statement skips the rest\<close>
  "and_then m f = (case m of (Inl e, s) \<Rightarrow> (Inl e, s) | (Inr a, s) \<Rightarrow> f a s)"

definition spawn_process :: "'w env \<Rightarrow> string list \<Rightarrow> string option \<Rightarrow> ('w, completed) action" where
  \<comment> \<open>\<^verbatim>\<open>subprocess.run(cmd, cwd=..., text=True, capture_output=True)\<close>\<close>
  "spawn_process E cmd cwd s =
     (let (r, w) = subprocess_run E (world s) cmd cwd;
          s1 = s\<lparr>spawned := spawned s @ [(cmd, cwd)], world := w\<rparr>
      in case r of OSFail e \<Rightarrow> (Inl (OSError e), s1) | Ran cp \<Rightarrow> (Inr cp, s1))"

definition show_output :: "completed \<Rightarrow> 'w session \<Rightarrow> 'w session" where
  "show_output cp s =
     (let s1 = (if strip (stdout cp) \<noteq> [] then console_print (Panel (strip (stdout cp)) ''stdout'') s else s)
      in if strip (stderr cp) \<noteq> [] then console_print (Panel (strip (stderr cp)) ''stderr'') s1 else s1)"

definition run_git :: "'w env \<Rightarrow> Path \<Rightarrow> string list \<Rightarrow> bool \<Rightarrow> ('w, completed) action" where
  "run_git E repo args check s =
     and_then (spawn_process E (''git'' # args) (Some (str_abs repo)) s) (\<lambda>proc s1.
       let s2 = show_output proc s1
       in if check \<and> returncode proc \<noteq> 0
          then (Inl (RuntimeError args (returncode proc)), s2)
          else (Inr proc, s2))"

section \<open>Stage and commit\<close>

definition setdefault_append :: "(string \<rightharpoonup> string list) \<Rightarrow> string \<Rightarrow> string list \<Rightarrow> (string \<rightharpoonup> string list)" where
  \<comment> \<open>\<^verbatim>\<open>d.setdefault(k, []).extend(xs)\<close>\<close>
  "setdefault_append d k xs = d(k \<mapsto> (case d k of None \<Rightarrow> [] | Some old \<Rightarrow> old) @ xs)"

datatype staged = Proceed | Returned

definition stage_files :: "'w env \<Rightarrow> Path \<Rightarrow> bool \<Rightarrow> string list option \<Rightarrow> ('w, staged) action" where
  \<comment> \<open>lines 367 to 387 of \<^verbatim>\<open>add_and_commit\<close>: \<open>Returned\<close> is the early \<^verbatim>\<open>return\<close> of line 375\<close>
  "stage_files E repo add_all files s0 =
     (let s = s0\<lparr>TOUCHED_REPOS := TOUCHED_REPOS s0 @ [repo]\<rparr>
      in if add_all then
           and_then (run_git E repo [''add'', ''.''] True s) (\<lambda>_ s1.
             (Inr Proceed,
              s1\<lparr>FILES_ADDED_BY_REPO := setdefault_append (FILES_ADDED_BY_REPO s1) (str_abs repo) [''.'']\<rparr>))
         else if files = None \<or> files = Some [] then
           (Inr Returned,
            console_print (Print (''[yellow]No se proporcionaron archivos. Nada que a'' @ [n_tilde] @ ''adir.[/yellow]'')) s)
         else
           (let fs = the files;
                ok = filter (\<lambda>f. path_exists E (world s) repo f) fs;
                s1 = fold (\<lambda>f. console_print (Print (''[red]No existe:[/red] '' @ f)))
                       (filter (\<lambda>f. \<not> path_exists E (world s) repo f) fs) s
            in if ok \<noteq> [] then
                 and_then (run_git E repo (''add'' # ok) True s1) (\<lambda>_ s2.
                   (Inr Proceed,
                    s2\<lparr>FILES_ADDED_BY_REPO := setdefault_append (FILES_ADDED_BY_REPO s2) (str_abs repo) ok\<rparr>))
               else
                 (Inr Proceed,
                  console_print (Print (''[yellow]No hay archivos v'' @ [a_acute] @ ''lidos para a'' @ [n_tilde] @ ''adir.[/yellow]'')) s1)))"

definition commit_step :: "'w env \<Rightarrow> Path \<Rightarrow> string \<Rightarrow> ('w, unit) action" where
  \<comment> \<open>lines 389 to 396; \<open>answer\<close> is what \<^verbatim>\<open>Prompt.ask("Nombre del commit")\<close> returns\<close>
  "commit_step E repo answer s =
     (let msg = strip answer
      in if msg = [] then
           (Inr (), console_print (Print (''[red]Mensaje vac'' @ [i_acute] @ ''o. Cancelando commit.[/red]'')) s)
         else
           and_then (run_git E repo [''commit'', ''-m'', msg] False s) (\<lambda>cp s1.
             if returncode cp \<noteq> 0
             then (Inr (), console_print (Print ''[yellow]Puede que no hubiera cambios que commitear.[/yellow]'') s1)
             else (Inr (), s1)))"

definition add_and_commit :: "'w env \<Rightarrow> Path \<Rightarrow> bool \<Rightarrow> string list option \<Rightarrow> string \<Rightarrow> ('w, unit) action" where
  "add_and_commit E repo add_all files answer s =
     and_then (stage_files E repo add_all files s) (\<lambda>r s1.
       case r of Returned \<Rightarrow> (Inr (), s1) | Proceed \<Rightarrow> commit_step E repo answer s1)"

section \<open>Branches\<close>

definition get_branches :: "'w env \<Rightarrow> Path \<Rightarrow> ('w, string \<times> string list) action" where
  "get_branches E repo s =
     and_then (run_git E repo [''rev-parse'', ''--abbrev-ref'', ''HEAD''] False s) (\<lambda>p1 s1.
       let cur = strip (stdout p1)
       in and_then (run_git E repo [''branch'', ''--format'', ''%(refname:short)''] False s1) (\<lambda>p2 s2.
            let loc = splitlines (strip (stdout p2))
            in (Inr (cur, map strip (filter (\<lambda>b. strip b \<noteq> []) loc)), s2)))"

definition checkout_branch :: "'w env \<Rightarrow> Path \<Rightarrow> string \<Rightarrow> bool \<Rightarrow> ('w, unit) action" where
  "checkout_branch E repo branch create s =
     and_then (run_git E repo (if create then [''checkout'', ''-b'', branch] else [''checkout'', branch]) True s)
       (\<lambda>_ s1. (Inr (), s1))"

text \<open>
  What the operator answers in the branch flow: the value of the first menu, the branch
  picked in the second menu (the menu offers the local branches only), and the line typed
  for the name of a new branch.
\<close>

datatype branch_mode = Existing | New

record branch_answers =
  mode :: branch_mode
  choice :: string
  typed_name :: string

definition create_new_branch :: "'w env \<Rightarrow> Path \<Rightarrow> string \<Rightarrow> string \<Rightarrow> ('w, string) action" where
  \<comment> \<open>lines 355 to 362 of \<^verbatim>\<open>ask_branch_flow\<close>\<close>
  "create_new_branch E repo current typed s =
     (let new_name = strip typed
      in if new_name = [] then
           (Inl (SystemExit 1), console_print (Print (''[red]Nombre de rama vac'' @ [i_acute] @ ''o.[/red]'')) s)
         else
           (let s1 = s\<lparr>BRANCH_CHANGED := (BRANCH_CHANGED s)(str_abs repo \<mapsto> (current, new_name))\<rparr>
            in and_then (checkout_branch E repo new_name True s1) (\<lambda>_ s2. (Inr new_name, s2))))"

definition ask_branch_flow :: "'w env \<Rightarrow> Path \<Rightarrow> branch_answers \<Rightarrow> ('w, string) action" where
  "ask_branch_flow E repo ans s =
     and_then (get_branches E repo s) (\<lambda>(current, branches) s0.
       let s1 = console_print (Panel (''Rama actual: [bold green]'' @ current @ ''[/bold green]'') ''Ramas'') s0
       in if mode ans = Existing then
            (if branches = [] then
               create_new_branch E repo current (typed_name ans)
                 (console_print (Print (''[yellow]No hay ramas locales. Crear'' @ [e_acute] @ '' una nueva.[/yellow]'')) s1)
             else if choice ans \<noteq> current then
               (let s2 = s1\<lparr>BRANCH_CHANGED := (BRANCH_CHANGED s1)(str_abs repo \<mapsto> (current, choice ans))\<rparr>
                in and_then (checkout_branch E repo (choice ans) False s2) (\<lambda>_ s3. (Inr (choice ans), s3)))
             else (Inr (choice ans), s1))
          else create_new_branch E repo current (typed_name ans) s1)"

section \<open>The action dispatcher\<close>

definition prompt_ask :: "string \<Rightarrow> string \<Rightarrow> string" where
  \<comment> \<open>\<^verbatim>\<open>Prompt.ask(..., default=d)\<close>: an empty line takes the default, any other line
      is returned stripped\<close>
  "prompt_ask typed d = (if typed = [] then d else strip typed)"

record answers =
  branch :: branch_answers
  pr_title :: string
  pr_body :: string
  pr_base :: string

definition discard :: "(exn + 'a) \<times> 'w session \<Rightarrow> (exn + unit) \<times> 'w session" where
  "discard m = and_then m (\<lambda>_ s. (Inr (), s))"

definition show_gh_output :: "completed \<Rightarrow> 'w session \<Rightarrow> 'w session" where
  "show_gh_output cp s =
     (let s1 = (if strip (stdout cp) \<noteq> [] then console_print (Panel (strip (stdout cp)) ''gh stdout'') s else s)
      in if strip (stderr cp) \<noteq> [] then console_print (Panel (strip (stderr cp)) ''gh stderr'') s1 else s1)"

definition create_pull_request :: "'w env \<Rightarrow> Path \<Rightarrow> string \<Rightarrow> answers \<Rightarrow> ('w, unit) action" where
  \<comment> \<open>lines 471 to 490 of \<^verbatim>\<open>do_action\<close>\<close>
  "create_pull_request E repo current_branch ans s =
     and_then (spawn_process E [''gh'', ''--version''] None s) (\<lambda>gh s1.
       if returncode gh \<noteq> 0 then
         (Inr (),
          console_print (Print ''Instala desde https://cli.github.com/ y ejecuta [cyan]gh auth login[/cyan].'')
            (console_print (Print ''[yellow]No tienes la GitHub CLI 'gh' instalada o configurada.[/yellow]'') s1))
       else
         (let title = prompt_ask (pr_title ans) (''Actualizaciones en '' @ current_branch);
              body = prompt_ask (pr_body ans)
                       (''Actualizaci'' @ [o_acute] @ ''n autom'' @ [a_acute] @ ''tica desde asistente.'');
              base = prompt_ask (pr_base ans) ''main''
          in and_then
               (spawn_process E
                  [''gh'', ''pr'', ''create'', ''--base'', base, ''--head'', current_branch,
                   ''--title'', title, ''--body'', body]
                  (Some (str_abs repo)) s1)
               (\<lambda>res s2.
                  let s3 = show_gh_output res s2
                  in if returncode res \<noteq> 0
                     then (Inr (), console_print (Print ''[red]Fallo creando el PR.[/red]'') s3)
                     else (Inr (), console_print (Print ''[green]Pull Request creado correctamente.[/green]'') s3))))"

definition do_action :: "'w env \<Rightarrow> Path \<Rightarrow> string \<Rightarrow> answers \<Rightarrow> ('w, unit) action" where
  "do_action E repo action ans s =
     and_then (run_git E repo [''rev-parse'', ''--abbrev-ref'', ''HEAD''] False s) (\<lambda>p s1.
       let current_branch = strip (stdout p)
       in if action = ''Pull'' then
            discard (run_git E repo [''pull'', ''--ff-only''] False s1)
          else if action = ''Fetch'' then
            discard (run_git E repo [''fetch'', ''--all'', ''--prune''] False s1)
          else if action = ''Status'' then
            discard (run_git E repo [''status''] False s1)
          else if action = ''Log ('' @ [u_acute] @ ''ltimos 10)'' then
            discard (run_git E repo [''log'', ''--oneline'', ''-10'', ''--graph'', ''--decorate''] False s1)
          else if prefix ''Push directo'' action then
            discard (run_git E repo [''push'', ''origin'', ''HEAD''] False s1)
          else if prefix ''Push y establecer upstream'' action then
            discard (run_git E repo [''push'', ''-u'', ''origin'', current_branch] False s1)
          else if prefix ''Crear Pull Request'' action then
            create_pull_request E repo current_branch ans s1
          else if action = ''Cambiar/crear rama'' then
            discard (ask_branch_flow E repo (branch ans) s1)
          else (Inr (), s1))"

section \<open>Rollback\<close>

definition revert_panel :: "Path \<Rightarrow> out" where
  "revert_panel repo = Panel (''Revirtiendo cambios en [magenta]'' @ str_abs repo @ ''[/magenta]...'') []"

definition revert_repo :: "'w env \<Rightarrow> Path \<Rightarrow> ('w, unit) action" where
  \<comment> \<open>the body of the \<^verbatim>\<open>try\<close> of \<^verbatim>\<open>revert_changes\<close>, lines 500 to 510\<close>
  "revert_repo E repo s =
     (let s0 = console_print (revert_panel repo) s
      in and_then (run_git E repo [''restore'', ''--staged'', ''.''] False s0) (\<lambda>_ s1.
         and_then (run_git E repo [''reset'', ''--hard''] False s1) (\<lambda>_ s2.
         and_then (run_git E repo [''clean'', ''-fd''] False s2) (\<lambda>_ s3.
           case BRANCH_CHANGED s3 (str_abs repo) of
             Some (old, new) \<Rightarrow> discard (run_git E repo [''checkout'', old] False s3)
           | None \<Rightarrow> (Inr (), s3)))))"

fun revert_loop :: "'w env \<Rightarrow> Path list \<Rightarrow> ('w, unit) action" where
  \<comment> \<open>the \<^verbatim>\<open>for\<close> loop with its \<^verbatim>\<open>except Exception: pass\<close>\<close>
  "revert_loop E [] s = (Inr (), s)"
| "revert_loop E (repo # repos) s =
     (case revert_repo E repo s of
        (Inl e, s1) \<Rightarrow> if is_Exception e then revert_loop E repos s1 else (Inl e, s1)
      | (Inr _, s1) \<Rightarrow> revert_loop E repos s1)"

definition revert_changes :: "'w env \<Rightarrow> ('w, unit) action" where
  "revert_changes E s = revert_loop E (TOUCHED_REPOS s) s"

definition sigint_message :: out where
  "sigint_message =
     Print ''\<newline>[bold red]Saliendo del programa... revirtiendo cambios... una pena[/bold red]''"

definition handle_sigint :: "'w env \<Rightarrow> ('w, unit) action" where
  \<comment> \<open>\<^verbatim>\<open>try: revert_changes() finally: sys.exit(130)\<close>: the exit replaces whatever was raised\<close>
  "handle_sigint E s =
     (let s0 = console_print sigint_message s
      in (Inl (SystemExit 130), snd (revert_changes E s0)))"

section \<open>The file browser\<close>

text \<open>
  \<^verbatim>\<open>int(choice)\<close>: surrounding white space, an optional sign, decimal digits, single
  underscores between digits.
\<close>

definition isdigit :: "char \<Rightarrow> bool" where
  "isdigit c = (48 \<le> (of_char c :: nat) \<and> (of_char c :: nat) \<le> 57)"

definition digit_value :: "char \<Rightarrow> nat" where
  "digit_value c = (of_char c :: nat) - 48"

fun py_digits :: "nat \<Rightarrow> string \<Rightarrow> nat option" where
  "py_digits acc [] = Some acc"
| "py_digits acc (c # cs) =
     (if isdigit c then py_digits (10 * acc + digit_value c) cs
      else if c = CHR ''_'' then
        (case cs of
           [] \<Rightarrow> None
         | d # ds \<Rightarrow> if isdigit d then py_digits (10 * acc + digit_value d) ds else None)
      else None)"

definition py_nat :: "string \<Rightarrow> nat option" where
  "py_nat s = (case s of [] \<Rightarrow> None | c # cs \<Rightarrow> if isdigit c then py_digits (digit_value c) cs else None)"

definition py_int :: "string \<Rightarrow> int option" where
  "py_int s =
     (case strip s of
        [] \<Rightarrow> None
      | c # cs \<Rightarrow>
          if c = CHR ''-'' then map_option (\<lambda>n. - int n) (py_nat cs)
          else if c = CHR ''+'' then map_option int (py_nat cs)
          else map_option int (py_nat (c # cs)))"

text \<open>
  The directory tree as the browser sees it: \<^verbatim>\<open>current.iterdir()\<close> either raises
  \<^verbatim>\<open>PermissionError\<close> or yields the names in the directory, each with what \<^verbatim>\<open>is_dir()\<close>
  and \<^verbatim>\<open>is_file()\<close> say about it (\<open>IsOther\<close> when both are false).
\<close>

datatype kind = IsDir | IsFile | IsOther

datatype scan = Denied | Listed "(string \<times> kind) list"

type_synonym filesystem = "Path \<Rightarrow> scan"

definition dir_entries :: "filesystem \<Rightarrow> Path \<Rightarrow> (string \<times> kind) list" where
  \<comment> \<open>\<^verbatim>\<open>sorted(list(current.iterdir()), key=lambda p: (p.is_file(), p.name.lower()))\<close>\<close>
  "dir_entries fs cur =
     (case fs cur of
        Denied \<Rightarrow> []
      | Listed es \<Rightarrow> sort_key (\<lambda>(n, k). (k = IsFile, lower n)) es)"

datatype tag = Control | Dir | File

type_synonym item = "tag \<times> Path option \<times> string"

definition finish_label :: string where
  "finish_label = ''[Terminar selecci'' @ [o_acute] @ ''n]''"

definition controls :: "Path \<Rightarrow> Path \<Rightarrow> item list" where
  "controls repo_path cur =
     (if cur \<noteq> repo_path then [(Control, Some (parent cur), ''..'')] else [])
     @ [(Control, None, finish_label)]"

definition index_map :: "filesystem \<Rightarrow> Path \<Rightarrow> Path \<Rightarrow> item list" where
  \<comment> \<open>the entry for index \<open>i\<close> is element \<open>i - 1\<close>: controls first, then directories, then files\<close>
  "index_map fs repo_path cur =
     controls repo_path cur
     @ map (\<lambda>(n, k). (Dir, Some (cur @ [n]), n)) (filter (\<lambda>(n, k). k = IsDir) (dir_entries fs cur))
     @ map (\<lambda>(n, k). (File, Some (cur @ [n]), n)) (filter (\<lambda>(n, k). k = IsFile) (dir_entries fs cur))"

definition relative_to :: "Path \<Rightarrow> Path \<Rightarrow> exn + Path" where
  "relative_to p base = (if prefix base p then Inr (drop (length base) p) else Inl ValueError)"

definition relative_strs :: "Path \<Rightarrow> Path list \<Rightarrow> exn + string list" where
  \<comment> \<open>\<^verbatim>\<open>[str(p.relative_to(repo_path)) for p in selected]\<close>\<close>
  "relative_strs repo_path sel =
     (if list_all (prefix repo_path) sel
      then Inr (map (\<lambda>p. str_rel (drop (length repo_path) p)) sel)
      else Inl ValueError)"

record browser =
  current :: Path
  selected :: "Path list"
  visited_files :: "string set"

datatype outcome = Continue browser | Finished "string list" | Crash exn

definition file_chosen :: "Path \<Rightarrow> Path \<Rightarrow> browser \<Rightarrow> outcome" where
  \<comment> \<open>lines 261 to 271: the operator picked the index of a file\<close>
  "file_chosen repo_path fpath st =
     (if fpath \<in> set (selected st) then Continue st
      else
        (let st1 = st\<lparr>selected := selected st @ [fpath],
                      visited_files := insert (str_abs fpath) (visited_files st)\<rparr>
         in case relative_to fpath repo_path of Inl e \<Rightarrow> Crash e | Inr _ \<Rightarrow> Continue st1))"

definition finish_chosen :: "Path \<Rightarrow> bool \<Rightarrow> browser \<Rightarrow> outcome" where
  \<comment> \<open>lines 244 to 256; \<open>confirm\<close> is the answer to the one \<^verbatim>\<open>Confirm.ask\<close> of the branch\<close>
  "finish_chosen repo_path confirm st =
     (if selected st = [] then (if confirm then Finished [] else Continue st)
      else
        (case relative_strs repo_path (selected st) of
           Inl e \<Rightarrow> Crash e
         | Inr strs \<Rightarrow> if confirm then Finished strs else Continue st))"

definition remove_last :: "Path \<Rightarrow> browser \<Rightarrow> outcome" where
  \<comment> \<open>lines 221 to 227, the answer \<^verbatim>\<open>b\<close>\<close>
  "remove_last repo_path st =
     (if selected st \<noteq> [] then
        (case relative_to (last (selected st)) repo_path of
           Inl e \<Rightarrow> Crash e
         | Inr _ \<Rightarrow> Continue (st\<lparr>selected := butlast (selected st)\<rparr>))
      else Continue st)"

definition browse_step :: "filesystem \<Rightarrow> Path \<Rightarrow> browser \<Rightarrow> string \<times> bool \<Rightarrow> outcome" where
  \<comment> \<open>one turn of the \<^verbatim>\<open>while True\<close>: the answer to the prompt and, if the turn asks for a
      confirmation, the answer to it\<close>
  "browse_step fs repo_path st inp =
     (let choice = fst inp; confirm = snd inp
      in if choice = [] then Continue st
         else if strip choice = [inverted_bang] then Crash (NameError ''ai_panel'')
         else if lower choice = ''l'' then
           (case relative_strs repo_path (selected st) of Inl e \<Rightarrow> Crash e | Inr _ \<Rightarrow> Continue st)
         else if lower choice = ''b'' then remove_last repo_path st
         else
           (case py_int choice of
              None \<Rightarrow> Continue st
            | Some num \<Rightarrow>
                if num < 1 \<or> int (length (index_map fs repo_path (current st))) < num then Continue st
                else
                  (case index_map fs repo_path (current st) ! nat (num - 1) of
                     (Control, target, label) \<Rightarrow>
                       if label = ''..'' then Continue (st\<lparr>current := the target\<rparr>)
                       else finish_chosen repo_path confirm st
                   | (Dir, target, label) \<Rightarrow> Continue (st\<lparr>current := the target\<rparr>)
                   | (File, target, label) \<Rightarrow> file_chosen repo_path (the target) st)))"

fun browse_loop :: "filesystem \<Rightarrow> Path \<Rightarrow> browser \<Rightarrow> (string \<times> bool) list \<Rightarrow> (exn + string list) option" where
  \<comment> \<open>the loop runs as long as the operator answers; \<open>None\<close>: it is still waiting for an answer\<close>
  "browse_loop fs repo_path st [] = None"
| "browse_loop fs repo_path st (inp # inps) =
     (case browse_step fs repo_path st inp of
        Continue st1 \<Rightarrow> browse_loop fs repo_path st1 inps
      | Finished strs \<Rightarrow> Some (Inr strs)
      | Crash e \<Rightarrow> Some (Inl e))"

definition browse_and_select_files :: "filesystem \<Rightarrow> Path \<Rightarrow> (string \<times> bool) list \<Rightarrow> (exn + string list) option" where
  "browse_and_select_files fs repo_path inps =
     browse_loop fs repo_path \<lparr>current = repo_path, selected = [], visited_files = {}\<rparr> inps"

fun appended :: "filesystem \<Rightarrow> Path \<Rightarrow> browser \<Rightarrow> (string \<times> bool) list \<Rightarrow> Path list" where
  \<comment> \<open>the files that line 266 appends to \<^verbatim>\<open>selected\<close> during a run, in the order of the appends\<close>
  "appended fs repo_path st [] = []"
| "appended fs repo_path st (inp # inps) =
     (case browse_step fs repo_path st inp of
        Continue st1 \<Rightarrow>
          (if length (selected st) < length (selected st1) then [last (selected st1)] else [])
          @ appended fs repo_path st1 inps
      | Finished strs \<Rightarrow> []
      | Crash e \<Rightarrow> [])"

section \<open>Sessions\<close>

text \<open>
  The session state at program start (lines 81 to 83), the three ledgers taken together,
  and the subprocess invocations made between two states.
\<close>

definition fresh :: "'w \<Rightarrow> 'w session" where
  "fresh w = \<lparr>TOUCHED_REPOS = [], FILES_ADDED_BY_REPO = Map.empty, BRANCH_CHANGED = Map.empty,
              console = [], spawned = [], world = w\<rparr>"

definition ledger :: "'w session \<Rightarrow> Path list \<times> (string \<rightharpoonup> string list) \<times> (string \<rightharpoonup> string \<times> string)" where
  "ledger s = (TOUCHED_REPOS s, FILES_ADDED_BY_REPO s, BRANCH_CHANGED s)"

definition issued_since :: "'w session \<Rightarrow> 'w session \<Rightarrow> (string list \<times> string option) list" where
  "issued_since s s1 = drop (length (spawned s)) (spawned s1)"

text \<open>
  The loop of \<^verbatim>\<open>main\<close> (lines 551 to 564) calls \<^verbatim>\<open>add_and_commit\<close> (through
  \<^verbatim>\<open>maybe_stage_and_commit\<close>) and \<^verbatim>\<open>do_action\<close>, one after the other; an exception that
  nobody catches ends the run. A session history is the list of these calls.
\<close>

datatype event =
    Stage Path bool "string list option" string
  | Act Path string answers

fun run_events :: "'w env \<Rightarrow> event list \<Rightarrow> ('w, unit) action" where
  "run_events E [] s = (Inr (), s)"
| "run_events E (Stage repo add_all files answer # evs) s =
     and_then (add_and_commit E repo add_all files answer s) (\<lambda>_. run_events E evs)"
| "run_events E (Act repo action ans # evs) s =
     and_then (do_action E repo action ans s) (\<lambda>_. run_events E evs)"

fun staged_repos :: "event list \<Rightarrow> Path list" where
  \<comment> \<open>the repository of every staging attempt of a history, one entry per attempt\<close>
  "staged_repos [] = []"
| "staged_repos (Stage repo add_all files answer # evs) = repo # staged_repos evs"
| "staged_repos (Act repo action ans # evs) = staged_repos evs"

text \<open>
  What \<^verbatim>\<open>add_and_commit\<close> hands to \<^verbatim>\<open>git add\<close>, if anything, and whether that call succeeds:
  it ran and returned status 0.
\<close>

definition staged_args :: "'w env \<Rightarrow> Path \<Rightarrow> bool \<Rightarrow> string list option \<Rightarrow> 'w session \<Rightarrow> string list option" where
  "staged_args E repo add_all files s =
     (if add_all then Some [''.'']
      else case files of
             None \<Rightarrow> None
           | Some fs \<Rightarrow>
               (let ok = filter (\<lambda>f. path_exists E (world s) repo f) fs
                in if ok = [] then None else Some ok))"

definition stage_call_succeeds :: "'w env \<Rightarrow> Path \<Rightarrow> string list \<Rightarrow> 'w session \<Rightarrow> bool" where
  "stage_call_succeeds E repo fs s =
     (case fst (subprocess_run E (world s) (''git'' # ''add'' # fs) (Some (str_abs repo))) of
        Ran cp \<Rightarrow> returncode cp = 0
      | OSFail e \<Rightarrow> False)"

text \<open>
  The rollback of one repository as section 4.4 of the specification words it: unstage
  everything, hard-reset the working tree, remove untracked files and directories, and,
  if a branch-change record exists, check out its original branch. A visit of the
  rollback to a repository is recognised by the first of these commands.
\<close>

definition rollback_steps :: "(string \<rightharpoonup> string \<times> string) \<Rightarrow> Path \<Rightarrow> (string list \<times> string option) list" where
  "rollback_steps record repo =
     map (\<lambda>args. (''git'' # args, Some (str_abs repo)))
       ([[''restore'', ''--staged'', ''.''], [''reset'', ''--hard''], [''clean'', ''-fd'']]
        @ (case record (str_abs repo) of Some (old, new) \<Rightarrow> [[''checkout'', old]] | None \<Rightarrow> []))"

definition rollback_visits :: "(string list \<times> string option) list \<Rightarrow> string option list" where
  "rollback_visits cmds = map snd (filter (\<lambda>c. fst c = [''git'', ''restore'', ''--staged'', ''.'']) cmds)"

definition git_runs :: "'w env \<Rightarrow> bool" where
  \<comment> \<open>\<^verbatim>\<open>git\<close> can be started in every directory: no call of it raises\<close>
  "git_runs E = (\<forall>w args cwd. \<exists>cp w1. subprocess_run E w (''git'' # args) cwd = (Ran cp, w1))"

section \<open>Properties of returned selections\<close>

fun split_from :: "string \<Rightarrow> string \<Rightarrow> string list" where
  "split_from cur [] = [cur]"
| "split_from cur (c # cs) =
     (if c = CHR ''/'' then cur # split_from [] cs else split_from (cur @ [c]) cs)"

definition split_path :: "string \<Rightarrow> string list" where
  \<comment> \<open>the components of a path string, separated by slashes\<close>
  "split_path s = split_from [] s"

definition within_root :: "string \<Rightarrow> bool" where
  \<comment> \<open>a relative path (no leading slash, no empty component) that never steps up or stays\<close>
  "within_root r = list_all (\<lambda>c. c \<noteq> [] \<and> c \<noteq> ''..'' \<and> c \<noteq> ''.'') (split_path r)"

definition clean_name :: "string \<Rightarrow> bool" where
  \<comment> \<open>what a directory listing can contain: a non-empty name without a slash, not a dot entry\<close>
  "clean_name n = (n \<noteq> [] \<and> CHR ''/'' \<notin> set n \<and> n \<noteq> ''..'' \<and> n \<noteq> ''.'')"

definition listing_ok :: "filesystem \<Rightarrow> bool" where
  "listing_ok fs = (\<forall>d es. fs d = Listed es \<longrightarrow> list_all (\<lambda>e. clean_name (fst e)) es)"

text \<open>
  What holds of the browser's state on every turn: the cursor is the root or lies below
  it, and the selected paths are distinct files strictly below the root, every step down
  being a name from a listing.
\<close>

definition under_root :: "Path \<Rightarrow> Path \<Rightarrow> bool" where
  "under_root repo_path p = (prefix repo_path p \<and> list_all clean_name (drop (length repo_path) p))"

definition browser_ok :: "Path \<Rightarrow> browser \<Rightarrow> bool" where
  "browser_ok repo_path st =
     (under_root repo_path (current st)
      \<and> distinct (selected st)
      \<and> list_all (\<lambda>p. under_root repo_path p \<and> p \<noteq> repo_path) (selected st))"

section \<open>A simulated backend for concrete runs\<close>

text \<open>
  A small stand-in for the tools, used to run the model on concrete sessions: one
  repository with a checked-out branch and its local branches, the exit status that
  \<^verbatim>\<open>git add\<close> and \<^verbatim>\<open>git commit\<close> return, and whether \<^verbatim>\<open>gh\<close> is installed. Starting a
  program that is not installed raises \<^verbatim>\<open>FileNotFoundError\<close>.
\<close>

record sim =
  head_branch :: string
  local_branches :: "string list"
  add_status :: int
  commit_status :: int
  gh_installed :: bool

definition sim_run :: "sim \<Rightarrow> string list \<Rightarrow> string option \<Rightarrow> spawn \<times> sim" where
  "sim_run w cmd cwd =
     (if take 1 cmd = [''gh''] then
        (if gh_installed w then (Ran (CompletedProcess 0 ''gh version 2.40.1'' []), w)
         else (OSFail FileNotFoundError, w))
      else if cmd = [''git'', ''rev-parse'', ''--abbrev-ref'', ''HEAD''] then
        (Ran (CompletedProcess 0 (head_branch w @ ''\<newline>'') []), w)
      else if take 2 cmd = [''git'', ''branch''] then
        (Ran (CompletedProcess 0 (concat (map (\<lambda>b. b @ ''\<newline>'') (local_branches w))) []), w)
      else if take 3 cmd = [''git'', ''checkout'', ''-b''] \<and> length cmd = 4 then
        (Ran (CompletedProcess 0 [] []),
         w\<lparr>head_branch := cmd ! 3, local_branches := local_branches w @ [cmd ! 3]\<rparr>)
      else if take 2 cmd = [''git'', ''checkout''] \<and> length cmd = 3 then
        (if cmd ! 2 \<in> set (local_branches w)
         then (Ran (CompletedProcess 0 [] []), w\<lparr>head_branch := cmd ! 2\<rparr>)
         else (Ran (CompletedProcess 1 [] ''error: pathspec did not match''), w))
      else if take 2 cmd = [''git'', ''add''] then
        (Ran (CompletedProcess (add_status w) [] []), w)
      else if take 2 cmd = [''git'', ''commit''] then
        (Ran (CompletedProcess (commit_status w) [] []), w)
      else (Ran (CompletedProcess 0 [] []), w))"

definition sim_env :: "sim env" where
  "sim_env = \<lparr>subprocess_run = sim_run, path_exists = (\<lambda>w repo f. True)\<rparr>"

definition sim0 :: sim where
  "sim0 = \<lparr>head_branch = ''main'', local_branches = [''main'', ''dev'', ''feature''],
           add_status = 0, commit_status = 0, gh_installed = False\<rparr>"

definition pick :: "string \<Rightarrow> answers" where
  \<comment> \<open>the operator picks an existing branch\<close>
  "pick b = \<lparr>branch = \<lparr>mode = Existing, choice = b, typed_name = []\<rparr>,
            pr_title = [], pr_body = [], pr_base = []\<rparr>"

definition on_dev :: "sim session" where
  \<comment> \<open>a fresh session on \<^verbatim>\<open>main\<close>; the operator switches to \<^verbatim>\<open>dev\<close>\<close>
  "on_dev = snd (ask_branch_flow sim_env [''r''] (branch (pick ''dev'')) (fresh sim0))"

definition on_feature :: "sim session" where
  \<comment> \<open>then switches to \<^verbatim>\<open>feature\<close>\<close>
  "on_feature = snd (ask_branch_flow sim_env [''r''] (branch (pick ''feature'')) on_dev)"

definition main_dev_feature :: "sim session" where
  \<comment> \<open>then stages everything and leaves the commit message empty\<close>
  "main_dev_feature = snd (add_and_commit sim_env [''r''] True None [] on_feature)"

definition staged_twice :: "sim session" where
  \<comment> \<open>two staging attempts on the same repository, each committed\<close>
  "staged_twice =
     snd (add_and_commit sim_env [''r''] True None ''two''
            (snd (add_and_commit sim_env [''r''] True None ''one'' (fresh sim0))))"

definition tree0 :: filesystem where
  \<comment> \<open>a repository with \<^verbatim>\<open>a.txt\<close> and \<^verbatim>\<open>sub/b.txt\<close>\<close>
  "tree0 d =
     (if d = [''r''] then Listed [(''a.txt'', IsFile), (''sub'', IsDir)]
      else if d = [''r'', ''sub''] then Listed [(''b.txt'', IsFile)]
      else Listed [])"

definition sim_add_fails :: sim where
  \<comment> \<open>\<^verbatim>\<open>git add\<close> is refused with status 128\<close>
  "sim_add_fails = sim0\<lparr>add_status := 128\<rparr>"

definition sim_nothing_to_commit :: sim where
  \<comment> \<open>\<^verbatim>\<open>git commit\<close> finds nothing to commit and returns status 1\<close>
  "sim_nothing_to_commit = sim0\<lparr>commit_status := 1\<rparr>"

definition gone_env :: "sim env" where
  \<comment> \<open>as \<open>sim_env\<close>, but the directory \<^verbatim>\<open>/gone\<close> has been removed: starting anything there raises\<close>
  "gone_env =
     \<lparr>subprocess_run =
        (\<lambda>w cmd cwd. if cwd = Some ''/gone'' then (OSFail FileNotFoundError, w) else sim_run w cmd cwd),
      path_exists = (\<lambda>w repo f. True)\<rparr>"

definition two_repos :: "sim session" where
  \<comment> \<open>a session in which staging was attempted in \<^verbatim>\<open>/gone\<close> and then in \<^verbatim>\<open>/r\<close>\<close>
  "two_repos = (fresh sim0)\<lparr>TOUCHED_REPOS := [[''gone''], [''r'']]\<rparr>"

section \<open>Sequencing and frame lemmas\<close>

lemma and_then_Inl [simp]: "and_then (Inl e, s) f = (Inl e, s)"
  by (simp add: and_then_def)

lemma and_then_Inr [simp]: "and_then (Inr a, s) f = f a s"
  by (simp add: and_then_def)

lemma and_then_keeps:
  assumes "P (snd m)" and "\<And>a s. P s \<Longrightarrow> P (snd (f a s))"
  shows "P (snd (and_then m f))"
proof (cases m)
  case (Pair r s)
  with assms show ?thesis by (cases r) simp_all
qed

lemma discard_snd [simp]: "snd (discard m) = snd m"
  by (cases m) (simp add: discard_def and_then_def split: sum.splits)

lemma ledger_console_print [simp]: "ledger (console_print x s) = ledger s"
  by (simp add: ledger_def console_print_def)

lemma spawned_console_print [simp]: "spawned (console_print x s) = spawned s"
  by (simp add: console_print_def)

lemma world_console_print [simp]: "world (console_print x s) = world s"
  by (simp add: console_print_def)

lemma ledger_fields:
  "ledger s = ledger t \<Longrightarrow>
     TOUCHED_REPOS s = TOUCHED_REPOS t \<and> FILES_ADDED_BY_REPO s = FILES_ADDED_BY_REPO t
     \<and> BRANCH_CHANGED s = BRANCH_CHANGED t"
  by (simp add: ledger_def)

text \<open>Subprocesses leave the ledgers alone.\<close>

lemma spawn_process_ledger [simp]: "ledger (snd (spawn_process E cmd cwd s)) = ledger s"
  by (simp add: spawn_process_def ledger_def Let_def split: prod.splits spawn.splits)

lemma spawn_process_spawned [simp]:
  "spawned (snd (spawn_process E cmd cwd s)) = spawned s @ [(cmd, cwd)]"
  by (simp add: spawn_process_def Let_def split: prod.splits spawn.splits)

lemma show_output_ledger [simp]: "ledger (show_output cp s) = ledger s"
  by (simp add: show_output_def Let_def)

lemma show_output_spawned [simp]: "spawned (show_output cp s) = spawned s"
  by (simp add: show_output_def Let_def)

lemma show_output_world [simp]: "world (show_output cp s) = world s"
  by (simp add: show_output_def Let_def)

lemma run_git_ledger [simp]: "ledger (snd (run_git E repo args chk s)) = ledger s"
  unfolding run_git_def
  by (rule and_then_keeps [where P = "\<lambda>t. ledger t = ledger s"]) (simp_all add: Let_def)

lemma run_git_spawned [simp]:
  "spawned (snd (run_git E repo args chk s)) = spawned s @ [(''git'' # args, Some (str_abs repo))]"
  unfolding run_git_def
  by (rule and_then_keeps [where P = "\<lambda>t. spawned t = spawned s @ [(''git'' # args, Some (str_abs repo))]"])
     (simp_all add: Let_def)

lemma run_git_touched [simp]: "TOUCHED_REPOS (snd (run_git E repo args chk s)) = TOUCHED_REPOS s"
  using ledger_fields [OF run_git_ledger] by blast

lemma run_git_files [simp]: "FILES_ADDED_BY_REPO (snd (run_git E repo args chk s)) = FILES_ADDED_BY_REPO s"
  using ledger_fields [OF run_git_ledger] by blast

lemma run_git_branch [simp]: "BRANCH_CHANGED (snd (run_git E repo args chk s)) = BRANCH_CHANGED s"
  using ledger_fields [OF run_git_ledger] by blast

lemma run_git_unchecked:
  "fst (run_git E repo args False s) = Inl e \<Longrightarrow> \<exists>x. e = OSError x"
  by (auto simp: run_git_def spawn_process_def and_then_def Let_def split: prod.splits spawn.splits)

lemma run_git_Ran:
  assumes "subprocess_run E (world s) (''git'' # args) (Some (str_abs repo)) = (Ran cp, w)"
  shows "run_git E repo args chk s =
           (if chk \<and> returncode cp \<noteq> 0 then Inl (RuntimeError args (returncode cp)) else Inr cp,
            show_output cp (s\<lparr>spawned := spawned s @ [(''git'' # args, Some (str_abs repo))], world := w\<rparr>))"
  using assms by (simp add: run_git_def spawn_process_def Let_def)

lemma run_git_OSFail:
  assumes "subprocess_run E (world s) (''git'' # args) (Some (str_abs repo)) = (OSFail x, w)"
  shows "run_git E repo args chk s =
           (Inl (OSError x), s\<lparr>spawned := spawned s @ [(''git'' # args, Some (str_abs repo))], world := w\<rparr>)"
  using assms by (simp add: run_git_def spawn_process_def Let_def)

section \<open>Read-only actions\<close>

text \<open>
  C10. Dispatching Pull, Fetch, Status or Log leaves the three ledgers as they were, from
  every starting state and whatever the backend answers, also when starting \<^verbatim>\<open>git\<close>
  raises.
\<close>

theorem read_only_actions_keep_the_ledgers:
  "ledger (snd (do_action E repo ''Pull'' ans s)) = ledger s
   \<and> ledger (snd (do_action E repo ''Fetch'' ans s)) = ledger s
   \<and> ledger (snd (do_action E repo ''Status'' ans s)) = ledger s
   \<and> ledger (snd (do_action E repo (''Log ('' @ [u_acute] @ ''ltimos 10)'') ans s)) = ledger s"
proof -
  have pull: "ledger (snd (do_action E repo ''Pull'' ans s)) = ledger s"
    unfolding do_action_def
    by (rule and_then_keeps [where P = "\<lambda>t. ledger t = ledger s"]) (simp_all add: Let_def)
  have fetch: "ledger (snd (do_action E repo ''Fetch'' ans s)) = ledger s"
    unfolding do_action_def
    by (rule and_then_keeps [where P = "\<lambda>t. ledger t = ledger s"]) (simp_all add: Let_def)
  have status: "ledger (snd (do_action E repo ''Status'' ans s)) = ledger s"
    unfolding do_action_def
    by (rule and_then_keeps [where P = "\<lambda>t. ledger t = ledger s"]) (simp_all add: Let_def)
  have log: "ledger (snd (do_action E repo (''Log ('' @ [u_acute] @ ''ltimos 10)'') ans s)) = ledger s"
    unfolding do_action_def
    by (rule and_then_keeps [where P = "\<lambda>t. ledger t = ledger s"]) (simp_all add: Let_def)
  from pull fetch status log show ?thesis by blast
qed

section \<open>Staging: helper lemmas\<close>

lemma fold_print_ledger [simp]:
  "ledger (fold (\<lambda>f. console_print (g f)) xs s) = ledger s"
  by (induction xs arbitrary: s) simp_all

lemma fold_print_spawned [simp]:
  "spawned (fold (\<lambda>f. console_print (g f)) xs s) = spawned s"
  by (induction xs arbitrary: s) simp_all

lemma fold_print_world [simp]:
  "world (fold (\<lambda>f. console_print (g f)) xs s) = world s"
  by (induction xs arbitrary: s) simp_all

lemma ledger_touched_update [simp]:
  "ledger (s\<lparr>TOUCHED_REPOS := t\<rparr>) = (t, FILES_ADDED_BY_REPO s, BRANCH_CHANGED s)"
  by (simp add: ledger_def)

lemma snd_and_then:
  "snd (and_then m f) = (case fst m of Inl e \<Rightarrow> snd m | Inr a \<Rightarrow> snd (f a (snd m)))"
  by (cases m) (auto simp: and_then_def split: sum.splits)

lemma fst_and_then:
  "fst (and_then m f) = (case fst m of Inl e \<Rightarrow> Inl e | Inr a \<Rightarrow> fst (f a (snd m)))"
  by (cases m) (auto simp: and_then_def split: sum.splits)

lemma console_print_fields [simp]:
  "TOUCHED_REPOS (console_print x s) = TOUCHED_REPOS s"
  "FILES_ADDED_BY_REPO (console_print x s) = FILES_ADDED_BY_REPO s"
  "BRANCH_CHANGED (console_print x s) = BRANCH_CHANGED s"
  "console (console_print x s) = console s @ [x]"
  by (simp_all add: console_print_def)

lemma show_output_fields [simp]:
  "TOUCHED_REPOS (show_output cp s) = TOUCHED_REPOS s"
  "FILES_ADDED_BY_REPO (show_output cp s) = FILES_ADDED_BY_REPO s"
  "BRANCH_CHANGED (show_output cp s) = BRANCH_CHANGED s"
  by (simp_all add: show_output_def Let_def)

lemma fold_print_fields [simp]:
  "TOUCHED_REPOS (fold (\<lambda>f. console_print (g f)) xs s) = TOUCHED_REPOS s"
  "FILES_ADDED_BY_REPO (fold (\<lambda>f. console_print (g f)) xs s) = FILES_ADDED_BY_REPO s"
  "BRANCH_CHANGED (fold (\<lambda>f. console_print (g f)) xs s) = BRANCH_CHANGED s"
  by (induction xs arbitrary: s) simp_all

lemma stage_files_touched:
  "TOUCHED_REPOS (snd (stage_files E repo add_all files s)) = TOUCHED_REPOS s @ [repo]"
  by (simp add: stage_files_def Let_def snd_and_then split: sum.splits)

lemma commit_step_ledger [simp]: "ledger (snd (commit_step E repo answer s)) = ledger s"
proof -
  have "ledger (snd (and_then (run_git E repo args False s) (\<lambda>cp s1.
             if returncode cp \<noteq> 0 then (Inr (), console_print x s1) else (Inr (), s1)))) = ledger s" for args x
    by (rule and_then_keeps [where P = "\<lambda>t. ledger t = ledger s"]) simp_all
  then show ?thesis by (simp add: commit_step_def Let_def)
qed

lemma add_and_commit_ledger:
  "ledger (snd (add_and_commit E repo add_all files answer s)) = ledger (snd (stage_files E repo add_all files s))"
proof (cases "stage_files E repo add_all files s")
  case (Pair r s1)
  show ?thesis
  proof (cases r)
    case (Inl e)
    with Pair show ?thesis by (simp add: add_and_commit_def)
  next
    case (Inr st)
    with Pair show ?thesis by (cases st) (simp_all add: add_and_commit_def)
  qed
qed

lemma add_and_commit_touched:
  "TOUCHED_REPOS (snd (add_and_commit E repo add_all files answer s)) = TOUCHED_REPOS s @ [repo]"
  using ledger_fields [OF add_and_commit_ledger, of E repo add_all files answer s]
  by (simp add: stage_files_touched)

lemma stage_after_add:
  "FILES_ADDED_BY_REPO (snd (and_then (run_git E repo (''add'' # fs) True t)
       (\<lambda>_ s1. (Inr Proceed, s1\<lparr>FILES_ADDED_BY_REPO := setdefault_append (FILES_ADDED_BY_REPO s1) k fs\<rparr>)))) =
   (if stage_call_succeeds E repo fs t then setdefault_append (FILES_ADDED_BY_REPO t) k fs
    else FILES_ADDED_BY_REPO t)"
proof (cases "subprocess_run E (world t) (''git'' # ''add'' # fs) (Some (str_abs repo))")
  case (Pair r w)
  show ?thesis
  proof (cases r)
    case (Ran cp)
    with Pair show ?thesis
      by (simp add: run_git_Ran [where cp = cp and w = w] stage_call_succeeds_def)
  next
    case (OSFail x)
    with Pair show ?thesis
      by (simp add: run_git_OSFail [where x = x and w = w] stage_call_succeeds_def)
  qed
qed

lemma stage_call_succeeds_simps [simp]:
  "stage_call_succeeds E repo fs (fold (\<lambda>f. console_print (g f)) xs t) = stage_call_succeeds E repo fs t"
  "stage_call_succeeds E repo fs (t\<lparr>TOUCHED_REPOS := x\<rparr>) = stage_call_succeeds E repo fs t"
  by (simp_all add: stage_call_succeeds_def)

lemma stage_files_files:
  "FILES_ADDED_BY_REPO (snd (stage_files E repo add_all files s)) =
     (case staged_args E repo add_all files s of
        None \<Rightarrow> FILES_ADDED_BY_REPO s
      | Some fs \<Rightarrow>
          if stage_call_succeeds E repo fs s
          then setdefault_append (FILES_ADDED_BY_REPO s) (str_abs repo) fs
          else FILES_ADDED_BY_REPO s)"
proof (cases add_all)
  case True
  then show ?thesis
    by (simp add: stage_files_def staged_args_def stage_after_add)
next
  case False
  show ?thesis
  proof (cases files)
    case None
    with False show ?thesis
      by (simp add: stage_files_def staged_args_def)
  next
    case (Some fs)
    with False show ?thesis
      by (simp add: stage_files_def staged_args_def Let_def stage_after_add)
  qed
qed

lemma spawn_process_fields [simp]:
  "TOUCHED_REPOS (snd (spawn_process E cmd cwd s)) = TOUCHED_REPOS s"
  "FILES_ADDED_BY_REPO (snd (spawn_process E cmd cwd s)) = FILES_ADDED_BY_REPO s"
  "BRANCH_CHANGED (snd (spawn_process E cmd cwd s)) = BRANCH_CHANGED s"
  using ledger_fields [OF spawn_process_ledger] by blast+

lemma show_gh_output_fields [simp]:
  "TOUCHED_REPOS (show_gh_output cp s) = TOUCHED_REPOS s"
  "FILES_ADDED_BY_REPO (show_gh_output cp s) = FILES_ADDED_BY_REPO s"
  "BRANCH_CHANGED (show_gh_output cp s) = BRANCH_CHANGED s"
  "spawned (show_gh_output cp s) = spawned s"
  "world (show_gh_output cp s) = world s"
  by (simp_all add: show_gh_output_def Let_def)

lemma get_branches_touched [simp]:
  "TOUCHED_REPOS (snd (get_branches E repo s)) = TOUCHED_REPOS s"
  by (simp add: get_branches_def Let_def snd_and_then split: sum.splits)

lemma get_branches_branch [simp]:
  "BRANCH_CHANGED (snd (get_branches E repo s)) = BRANCH_CHANGED s"
  by (simp add: get_branches_def Let_def snd_and_then split: sum.splits)

lemma checkout_branch_touched [simp]:
  "TOUCHED_REPOS (snd (checkout_branch E repo b c s)) = TOUCHED_REPOS s"
  by (simp add: checkout_branch_def snd_and_then split: sum.splits)

lemma checkout_branch_branch [simp]:
  "BRANCH_CHANGED (snd (checkout_branch E repo b c s)) = BRANCH_CHANGED s"
  by (simp add: checkout_branch_def snd_and_then split: sum.splits)

lemma create_new_branch_touched [simp]:
  "TOUCHED_REPOS (snd (create_new_branch E repo cur typed s)) = TOUCHED_REPOS s"
  by (simp add: create_new_branch_def Let_def snd_and_then split: sum.splits)

lemma ask_branch_flow_touched [simp]:
  "TOUCHED_REPOS (snd (ask_branch_flow E repo ans s)) = TOUCHED_REPOS s"
  by (simp add: ask_branch_flow_def Let_def snd_and_then split: sum.splits prod.splits)

lemma create_pull_request_touched [simp]:
  "TOUCHED_REPOS (snd (create_pull_request E repo cb ans s)) = TOUCHED_REPOS s"
  by (simp add: create_pull_request_def Let_def snd_and_then split: sum.splits)

lemma do_action_touched [simp]:
  "TOUCHED_REPOS (snd (do_action E repo action ans s)) = TOUCHED_REPOS s"
  by (simp add: do_action_def Let_def snd_and_then split: sum.splits)

lemma run_events_touched_grows:
  "prefix (TOUCHED_REPOS s) (TOUCHED_REPOS (snd (run_events E evs s)))"
proof (induction evs arbitrary: s)
  case Nil
  show ?case by simp
next
  case (Cons ev evs)
  show ?case
  proof (cases ev)
    case (Stage repo add_all files answer)
    have "prefix (TOUCHED_REPOS s) (TOUCHED_REPOS (snd (add_and_commit E repo add_all files answer s)))"
      by (simp add: add_and_commit_touched)
    moreover have "prefix (TOUCHED_REPOS t) (TOUCHED_REPOS (snd (run_events E evs t)))" for t
      by (rule Cons.IH)
    ultimately show ?thesis
      using Stage by (auto simp: snd_and_then split: sum.splits intro: prefix_order.trans)
  next
    case (Act repo action ans)
    have "prefix (TOUCHED_REPOS t) (TOUCHED_REPOS (snd (run_events E evs t)))" for t
      by (rule Cons.IH)
    from this [of "snd (do_action E repo action ans s)"] show ?thesis
      using Act by (simp add: snd_and_then split: sum.splits)
  qed
qed

lemma run_events_touched:
  "run_events E evs s = (Inr (), s1) \<Longrightarrow> TOUCHED_REPOS s1 = TOUCHED_REPOS s @ staged_repos evs"
proof (induction evs arbitrary: s)
  case Nil
  then show ?case by simp
next
  case (Cons ev evs)
  show ?case
  proof (cases ev)
    case (Stage repo add_all files answer)
    obtain r t where m: "add_and_commit E repo add_all files answer s = (r, t)"
      by (cases "add_and_commit E repo add_all files answer s")
    with Cons.prems Stage obtain u where "r = Inr u" and rest: "run_events E evs t = (Inr (), s1)"
      by (cases r) simp_all
    from m have "TOUCHED_REPOS t = TOUCHED_REPOS s @ [repo]"
      using add_and_commit_touched [of E repo add_all files answer s] by simp
    with Cons.IH [OF rest] Stage show ?thesis by simp
  next
    case (Act repo action ans)
    obtain r t where m: "do_action E repo action ans s = (r, t)"
      by (cases "do_action E repo action ans s")
    with Cons.prems Act obtain u where "r = Inr u" and rest: "run_events E evs t = (Inr (), s1)"
      by (cases r) simp_all
    from m have "TOUCHED_REPOS t = TOUCHED_REPOS s"
      using do_action_touched [of E repo action ans s] by simp
    with Cons.IH [OF rest] Act show ?thesis by simp
  qed
qed

section \<open>Staging attempts\<close>

text \<open>
  C7, as the code has it. Every call of \<^verbatim>\<open>add_and_commit\<close> appends the repository to
  \<^verbatim>\<open>TOUCHED_REPOS\<close> before anything else, whatever \<^verbatim>\<open>git add\<close> and \<^verbatim>\<open>git commit\<close> then do.
  The staged-file record of the repository is extended by what was handed to \<^verbatim>\<open>git add\<close>
  exactly when that call ran and returned status 0, whatever the commit step does; with
  nothing to hand over, or a failed call, it stays as it was. Over a whole history the
  touched ledger only grows: the old ledger is a prefix of the new one.
\<close>

theorem staging_attempt_ledger:
  "TOUCHED_REPOS (snd (add_and_commit E repo add_all files answer s)) = TOUCHED_REPOS s @ [repo]
   \<and> FILES_ADDED_BY_REPO (snd (add_and_commit E repo add_all files answer s)) =
       (case staged_args E repo add_all files s of
          None \<Rightarrow> FILES_ADDED_BY_REPO s
        | Some fs \<Rightarrow>
            if stage_call_succeeds E repo fs s
            then setdefault_append (FILES_ADDED_BY_REPO s) (str_abs repo) fs
            else FILES_ADDED_BY_REPO s)
   \<and> prefix (TOUCHED_REPOS s) (TOUCHED_REPOS (snd (run_events E evs s)))"
proof -
  have "FILES_ADDED_BY_REPO (snd (add_and_commit E repo add_all files answer s)) =
        FILES_ADDED_BY_REPO (snd (stage_files E repo add_all files s))"
    using ledger_fields [OF add_and_commit_ledger] by blast
  then show ?thesis
    by (simp only: add_and_commit_touched stage_files_files run_events_touched_grows simp_thms)
qed

theorem staging_attempt_ledger_witness:
  "TOUCHED_REPOS (snd (add_and_commit sim_env [''r''] True None ''fix'' (fresh sim0))) = [[''r'']]
   \<and> FILES_ADDED_BY_REPO (snd (add_and_commit sim_env [''r''] True None ''fix'' (fresh sim0))) ''/r''
       = Some [''.'']"
  using staging_attempt_ledger [of sim_env "[''r'']" True None "''fix''" "fresh sim0" "[]"]
  by (simp add: staged_args_def stage_call_succeeds_def sim_env_def sim_run_def sim0_def fresh_def
        str_abs_def setdefault_append_def)

text \<open>
  The claim as written fails where \<^verbatim>\<open>git add\<close> is refused: the repository is touched, the
  function raises, and the staged-file record has no entry.
\<close>

theorem failed_stage_call_records_nothing:
  "fst (add_and_commit sim_env [''r''] True None ''fix'' (fresh sim_add_fails))
     = Inl (RuntimeError [''add'', ''.''] 128)
   \<and> TOUCHED_REPOS (snd (add_and_commit sim_env [''r''] True None ''fix'' (fresh sim_add_fails))) = [[''r'']]
   \<and> FILES_ADDED_BY_REPO (snd (add_and_commit sim_env [''r''] True None ''fix'' (fresh sim_add_fails))) ''/r''
       = None"
  by code_simp


lemma spawned_touched_update [simp]: "spawned (s\<lparr>TOUCHED_REPOS := t\<rparr>) = spawned s"
  by simp

lemma stage_files_spawned:
  "spawned (snd (stage_files E repo add_all files s)) =
     spawned s @ (case staged_args E repo add_all files s of
                    None \<Rightarrow> []
                  | Some fs \<Rightarrow> [(''git'' # ''add'' # fs, Some (str_abs repo))])"
proof (cases add_all)
  case True
  then show ?thesis
    by (simp add: stage_files_def staged_args_def snd_and_then split: sum.splits)
next
  case False
  show ?thesis
  proof (cases files)
    case None
    with False show ?thesis by (simp add: stage_files_def staged_args_def)
  next
    case (Some fs)
    with False show ?thesis
      by (simp add: stage_files_def staged_args_def Let_def snd_and_then split: sum.splits)
  qed
qed

lemma add_and_commit_proceed:
  assumes "fst (stage_files E repo add_all files s) = Inr Proceed"
  shows "add_and_commit E repo add_all files answer s =
           commit_step E repo answer (snd (stage_files E repo add_all files s))"
proof (cases "stage_files E repo add_all files s")
  case (Pair r s1)
  with assms show ?thesis by (simp add: add_and_commit_def)
qed

lemma commit_step_empty:
  "strip answer = [] \<Longrightarrow>
   commit_step E repo answer s =
     (Inr (), console_print (Print (''[red]Mensaje vac'' @ [i_acute] @ ''o. Cancelando commit.[/red]'')) s)"
  by (simp add: commit_step_def)

lemma commit_step_nonzero:
  assumes "strip answer \<noteq> []"
    and "fst (subprocess_run E (world s) [''git'', ''commit'', ''-m'', strip answer] (Some (str_abs repo))) = Ran cp"
    and "returncode cp \<noteq> 0"
  shows "fst (commit_step E repo answer s) = Inr ()"
    and "last (console (snd (commit_step E repo answer s))) =
           Print ''[yellow]Puede que no hubiera cambios que commitear.[/yellow]''"
proof -
  obtain w where "subprocess_run E (world s) (''git'' # [''commit'', ''-m'', strip answer]) (Some (str_abs repo)) = (Ran cp, w)"
    using assms(2) by (cases "subprocess_run E (world s) [''git'', ''commit'', ''-m'', strip answer] (Some (str_abs repo))") simp
  from run_git_Ran [OF this, of False] assms(1,3)
  show "fst (commit_step E repo answer s) = Inr ()"
    and "last (console (snd (commit_step E repo answer s))) =
           Print ''[yellow]Puede que no hubiera cambios que commitear.[/yellow]''"
    by (simp_all add: commit_step_def)
qed

section \<open>The commit step\<close>



text \<open>
  C9. When the commit step is cancelled by an empty message, the state the function
  leaves is the state right after staging with one more line on the console: the three
  ledgers, the outside world (hence the index with the files staged) and the list of
  subprocesses are those of the end of staging. No command follows the \<^verbatim>\<open>git add\<close>;
  the repository is still the last entry of the touched ledger.
\<close>

theorem cancelled_commit_keeps_staging:
  assumes "fst (stage_files E repo add_all files s) = Inr Proceed" and "strip answer = []"
  shows "ledger (snd (add_and_commit E repo add_all files answer s)) =
           ledger (snd (stage_files E repo add_all files s))
       \<and> world (snd (add_and_commit E repo add_all files answer s)) =
           world (snd (stage_files E repo add_all files s))
       \<and> spawned (snd (add_and_commit E repo add_all files answer s)) =
           spawned (snd (stage_files E repo add_all files s))
       \<and> issued_since s (snd (add_and_commit E repo add_all files answer s)) =
           (case staged_args E repo add_all files s of
              None \<Rightarrow> []
            | Some fs \<Rightarrow> [(''git'' # ''add'' # fs, Some (str_abs repo))])
       \<and> TOUCHED_REPOS (snd (add_and_commit E repo add_all files answer s)) = TOUCHED_REPOS s @ [repo]"
  by (simp add: add_and_commit_proceed [OF assms(1)] commit_step_empty [OF assms(2)]
        stage_files_spawned stage_files_touched issued_since_def)

theorem cancelled_commit_keeps_staging_witness:
  "issued_since (fresh sim0) (snd (add_and_commit sim_env [''r''] True None [] (fresh sim0))) =
     [([''git'', ''add'', ''.''], Some ''/r'')]
   \<and> TOUCHED_REPOS (snd (add_and_commit sim_env [''r''] True None [] (fresh sim0))) = [[''r'']]
   \<and> FILES_ADDED_BY_REPO (snd (add_and_commit sim_env [''r''] True None [] (fresh sim0))) ''/r'' = Some [''.'']"
proof -
  have staged: "fst (stage_files sim_env [''r''] True None (fresh sim0)) = Inr Proceed"
    by code_simp
  have blank: "strip [] = []"
    by code_simp
  have files: "FILES_ADDED_BY_REPO (snd (stage_files sim_env [''r''] True None (fresh sim0))) ''/r'' = Some [''.'']"
    by code_simp
  have args: "staged_args sim_env [''r''] True None (fresh sim0) = Some [''.'']"
    and cwd: "str_abs [''r''] = ''/r''"
    by code_simp+
  note kept = cancelled_commit_keeps_staging [OF staged blank]
  from kept have "FILES_ADDED_BY_REPO (snd (add_and_commit sim_env [''r''] True None [] (fresh sim0))) =
                  FILES_ADDED_BY_REPO (snd (stage_files sim_env [''r''] True None (fresh sim0)))"
    using ledger_fields by blast
  with kept files args cwd show ?thesis
    by (simp add: fresh_def)
qed

section \<open>Rollback: helper lemmas\<close>

lemma rollback_visits_append [simp]:
  "rollback_visits (xs @ ys) = rollback_visits xs @ rollback_visits ys"
  by (simp add: rollback_visits_def)

lemma issued_since_append [simp]: "spawned t = spawned s @ new \<Longrightarrow> issued_since s t = new"
  by (simp add: issued_since_def)

lemma revert_repo_ledger [simp]: "ledger (snd (revert_repo E repo s)) = ledger s"
  by (simp add: revert_repo_def Let_def snd_and_then ledger_def split: sum.splits option.splits prod.splits)

lemma revert_repo_branch [simp]: "BRANCH_CHANGED (snd (revert_repo E repo s)) = BRANCH_CHANGED s"
  using ledger_fields [OF revert_repo_ledger] by blast

lemma revert_repo_raises:
  "fst (revert_repo E repo s) = Inl e \<Longrightarrow> is_Exception e"
  by (auto simp: revert_repo_def Let_def fst_and_then discard_def is_Exception_def
           split: sum.splits option.splits prod.splits dest!: run_git_unchecked)

lemma revert_repo_visit:
  "\<exists>new. spawned (snd (revert_repo E repo s)) = spawned s @ new
         \<and> rollback_visits new = [Some (str_abs repo)]"
  by (simp add: revert_repo_def Let_def snd_and_then rollback_visits_def
           split: sum.splits option.splits prod.splits)

lemma run_git_runs:
  assumes "git_runs E"
  shows "\<exists>cp. fst (run_git E repo args False s) = Inr cp"
proof -
  from assms obtain cp w where "subprocess_run E (world s) (''git'' # args) (Some (str_abs repo)) = (Ran cp, w)"
    unfolding git_runs_def by blast
  from run_git_Ran [OF this, of False] show ?thesis by simp
qed

lemma revert_repo_steps:
  assumes "git_runs E"
  shows "fst (revert_repo E repo s) = Inr ()"
    and "spawned (snd (revert_repo E repo s)) = spawned s @ rollback_steps (BRANCH_CHANGED s) repo"
proof -
  let ?s0 = "console_print (revert_panel repo) s"
  obtain c1 where 1: "fst (run_git E repo [''restore'', ''--staged'', ''.''] False ?s0) = Inr c1"
    using run_git_runs [OF assms] by blast
  let ?s1 = "snd (run_git E repo [''restore'', ''--staged'', ''.''] False ?s0)"
  obtain c2 where 2: "fst (run_git E repo [''reset'', ''--hard''] False ?s1) = Inr c2"
    using run_git_runs [OF assms] by blast
  let ?s2 = "snd (run_git E repo [''reset'', ''--hard''] False ?s1)"
  obtain c3 where 3: "fst (run_git E repo [''clean'', ''-fd''] False ?s2) = Inr c3"
    using run_git_runs [OF assms] by blast
  let ?s3 = "snd (run_git E repo [''clean'', ''-fd''] False ?s2)"
  have 4: "fst (discard (run_git E repo [''checkout'', old] False ?s3)) = Inr ()" for old
    using run_git_runs [OF assms, of repo "[''checkout'', old]" ?s3]
    by (auto simp: discard_def fst_and_then)
  show "fst (revert_repo E repo s) = Inr ()"
    using 1 2 3 4
    by (simp add: revert_repo_def Let_def fst_and_then split: option.splits)
  show "spawned (snd (revert_repo E repo s)) = spawned s @ rollback_steps (BRANCH_CHANGED s) repo"
    using 1 2 3
    by (simp add: revert_repo_def Let_def snd_and_then rollback_steps_def split: option.splits)
qed

lemma revert_loop_returns: "fst (revert_loop E repos s) = Inr ()"
proof (induction repos arbitrary: s)
  case Nil
  show ?case by simp
next
  case (Cons repo repos)
  show ?case
  proof (cases "revert_repo E repo s")
    case (Pair r s1)
    show ?thesis
    proof (cases r)
      case (Inl e)
      with Pair have "is_Exception e" using revert_repo_raises [of E repo s e] by simp
      with Pair Inl Cons.IH show ?thesis by simp
    next
      case (Inr u)
      with Pair Cons.IH show ?thesis by simp
    qed
  qed
qed

lemma revert_loop_step:
  "snd (revert_loop E (repo # repos) s) = snd (revert_loop E repos (snd (revert_repo E repo s)))"
proof (cases "revert_repo E repo s")
  case (Pair r s1)
  show ?thesis
  proof (cases r)
    case (Inl e)
    with Pair have "is_Exception e" using revert_repo_raises [of E repo s e] by simp
    with Pair Inl show ?thesis by simp
  next
    case (Inr u)
    with Pair show ?thesis by simp
  qed
qed

lemma revert_loop_visits:
  "\<exists>new. spawned (snd (revert_loop E repos s)) = spawned s @ new
         \<and> rollback_visits new = map (\<lambda>r. Some (str_abs r)) repos"
proof (induction repos arbitrary: s)
  case Nil
  show ?case by (simp add: rollback_visits_def)
next
  case (Cons repo repos)
  obtain n1 where 1: "spawned (snd (revert_repo E repo s)) = spawned s @ n1"
    and v1: "rollback_visits n1 = [Some (str_abs repo)]"
    using revert_repo_visit by blast
  obtain n2 where 2: "spawned (snd (revert_loop E repos (snd (revert_repo E repo s)))) =
                        spawned (snd (revert_repo E repo s)) @ n2"
    and v2: "rollback_visits n2 = map (\<lambda>r. Some (str_abs r)) repos"
    using Cons.IH by blast
  have "spawned (snd (revert_loop E (repo # repos) s)) = spawned s @ (n1 @ n2)"
    by (simp add: 1 2 del: revert_loop.simps add: revert_loop_step)
  moreover have "rollback_visits (n1 @ n2) = map (\<lambda>r. Some (str_abs r)) (repo # repos)"
    by (simp add: v1 v2)
  ultimately show ?case by blast
qed

lemma revert_loop_steps:
  assumes "git_runs E"
  shows "spawned (snd (revert_loop E repos s)) =
           spawned s @ concat (map (rollback_steps (BRANCH_CHANGED s)) repos)"
proof (induction repos arbitrary: s)
  case Nil
  show ?case by simp
next
  case (Cons repo repos)
  show ?case
    by (simp add: Cons.IH revert_repo_steps(2) [OF assms] del: revert_loop.simps add: revert_loop_step)
qed

lemma revert_changes_visits:
  "rollback_visits (issued_since s (snd (revert_changes E s))) = map (\<lambda>r. Some (str_abs r)) (TOUCHED_REPOS s)"
proof -
  obtain new where "spawned (snd (revert_loop E (TOUCHED_REPOS s) s)) = spawned s @ new"
    and "rollback_visits new = map (\<lambda>r. Some (str_abs r)) (TOUCHED_REPOS s)"
    using revert_loop_visits by blast
  then show ?thesis by (simp add: revert_changes_def)
qed

lemma handle_sigint_visits:
  "rollback_visits (issued_since s (snd (handle_sigint E s))) = map (\<lambda>r. Some (str_abs r)) (TOUCHED_REPOS s)"
proof -
  let ?s0 = "console_print sigint_message s"
  have "issued_since s (snd (handle_sigint E s)) = issued_since ?s0 (snd (revert_changes E ?s0))"
    by (simp add: handle_sigint_def Let_def issued_since_def)
  then show ?thesis
    using revert_changes_visits [of ?s0 E] by simp
qed

lemma handle_sigint_steps:
  assumes "git_runs E"
  shows "issued_since s (snd (handle_sigint E s)) =
           concat (map (rollback_steps (BRANCH_CHANGED s)) (TOUCHED_REPOS s))"
  by (simp add: handle_sigint_def Let_def revert_changes_def revert_loop_steps [OF assms])

lemma git_runs_sim_env: "git_runs sim_env"
  by (simp add: git_runs_def sim_env_def sim_run_def)

section \<open>The branch-change record\<close>

lemma create_new_branch_record:
  "BRANCH_CHANGED (snd (create_new_branch E repo cur typed s)) =
     (if strip typed = [] then BRANCH_CHANGED s
      else (BRANCH_CHANGED s)(str_abs repo \<mapsto> (cur, strip typed)))"
  by (simp add: create_new_branch_def Let_def snd_and_then split: sum.splits)

lemma ask_branch_flow_record:
  assumes "fst (get_branches E repo s) = Inr (cur, bs)"
  shows "BRANCH_CHANGED (snd (ask_branch_flow E repo ans s)) =
     (if mode ans = Existing \<and> bs \<noteq> [] then
        (if choice ans \<noteq> cur
         then (BRANCH_CHANGED s)(str_abs repo \<mapsto> (cur, choice ans))
         else BRANCH_CHANGED s)
      else if strip (typed_name ans) = [] then BRANCH_CHANGED s
      else (BRANCH_CHANGED s)(str_abs repo \<mapsto> (cur, strip (typed_name ans))))"
proof -
  obtain s0 where g: "get_branches E repo s = (Inr (cur, bs), s0)"
    using assms by (cases "get_branches E repo s") simp
  have "BRANCH_CHANGED s0 = BRANCH_CHANGED s"
    using get_branches_branch [of E repo s] g by simp
  then show ?thesis
    by (simp add: ask_branch_flow_def g Let_def create_new_branch_record snd_and_then split: sum.splits)
qed

lemma add_and_commit_branch [simp]:
  "BRANCH_CHANGED (snd (add_and_commit E repo add_all files answer s)) = BRANCH_CHANGED s"
proof -
  have "BRANCH_CHANGED (snd (stage_files E repo add_all files s)) = BRANCH_CHANGED s"
    by (simp add: stage_files_def Let_def snd_and_then split: sum.splits)
  then show ?thesis
    using ledger_fields [OF add_and_commit_ledger, of E repo add_all files answer s] by simp
qed

lemma revert_repo_issues:
  assumes "git_runs E"
  shows "issued_since s (snd (revert_repo E repo s)) = rollback_steps (BRANCH_CHANGED s) repo"
  using revert_repo_steps(2) [OF assms, of repo s] by simp




section \<open>Rollback on cancellation\<close>






section \<open>The review request\<close>

lemma create_pull_request_probe_fails:
  assumes "fst (subprocess_run E (world s) [''gh'', ''--version''] None) = Ran gh"
    and "returncode gh \<noteq> 0"
  shows "fst (create_pull_request E repo cb ans s) = Inr ()"
    and "issued_since s (snd (create_pull_request E repo cb ans s)) = [([''gh'', ''--version''], None)]"
proof -
  obtain w where "subprocess_run E (world s) [''gh'', ''--version''] None = (Ran gh, w)"
    using assms(1) by (cases "subprocess_run E (world s) [''gh'', ''--version''] None") simp
  then have "spawn_process E [''gh'', ''--version''] None s =
               (Inr gh, s\<lparr>spawned := spawned s @ [([''gh'', ''--version''], None)], world := w\<rparr>)"
    by (simp add: spawn_process_def)
  with assms(2) show "fst (create_pull_request E repo cb ans s) = Inr ()"
    and "issued_since s (snd (create_pull_request E repo cb ans s)) = [([''gh'', ''--version''], None)]"
    by (simp_all add: create_pull_request_def issued_since_def)
qed

text \<open>
  C4. With \<^verbatim>\<open>gh\<close> not installed, starting the probe raises \<^verbatim>\<open>FileNotFoundError\<close>; the
  dispatcher has no handler for it, so the action ends with that exception and prints no
  guidance: the console holds only the panel of the preceding \<^verbatim>\<open>git rev-parse\<close>.
\<close>

theorem review_request_without_gh_raises:
  "fst (do_action sim_env [''r''] ''Crear Pull Request (requiere GitHub CLI 'gh')'' (pick []) (fresh sim0))
     = Inl (OSError FileNotFoundError)
   \<and> console (snd (do_action sim_env [''r''] ''Crear Pull Request (requiere GitHub CLI 'gh')'' (pick [])
                      (fresh sim0)))
     = [Panel ''main'' ''stdout'']"
  by code_simp

section \<open>Choosing files in the browser\<close>

lemma relative_to_under: "prefix base p \<Longrightarrow> relative_to p base = Inr (drop (length base) p)"
  by (simp add: relative_to_def)




section \<open>The returned selection\<close>

text \<open>Path strings: splitting at the slashes undoes joining with slashes.\<close>

lemma split_from_no_slash: "CHR ''/'' \<notin> set x \<Longrightarrow> split_from cur x = [cur @ x]"
  by (induction x arbitrary: cur) auto

lemma split_from_slash:
  "CHR ''/'' \<notin> set x \<Longrightarrow> split_from cur (x @ CHR ''/'' # rest) = (cur @ x) # split_from [] rest"
  by (induction x arbitrary: cur) auto

lemma split_path_join:
  "rel \<noteq> [] \<Longrightarrow> list_all (\<lambda>c. CHR ''/'' \<notin> set c) rel \<Longrightarrow> split_path (join ''/'' rel) = rel"
proof (induction rel)
  case Nil
  then show ?case by simp
next
  case (Cons x xs)
  show ?case
  proof (cases xs)
    case Nil
    with Cons.prems show ?thesis by (simp add: split_path_def split_from_no_slash)
  next
    case (Cons y ys)
    with Cons.prems Cons.IH have "split_from [] (join ''/'' (y # ys)) = y # ys"
      by (simp add: split_path_def)
    with Cons Cons.prems show ?thesis
      by (simp add: split_path_def split_from_slash)
  qed
qed

lemma clean_name_no_slash: "list_all clean_name rel \<Longrightarrow> list_all (\<lambda>c. CHR ''/'' \<notin> set c) rel"
  by (induction rel) (simp_all add: clean_name_def)

lemma relative_string_splits:
  assumes "under_root repo_path p" and "p \<noteq> repo_path"
  shows "split_path (str_rel (drop (length repo_path) p)) = drop (length repo_path) p"
    and "repo_path @ split_path (str_rel (drop (length repo_path) p)) = p"
    and "within_root (str_rel (drop (length repo_path) p))"
proof -
  from assms(1) obtain rel where p: "p = repo_path @ rel" and clean: "list_all clean_name rel"
    by (auto simp: under_root_def prefix_def)
  from p assms(2) have "rel \<noteq> []"
    by auto
  note rel = this clean
  from rel have s: "split_path (str_rel rel) = rel"
    by (simp add: str_rel_def split_path_join clean_name_no_slash)
  from p s show "split_path (str_rel (drop (length repo_path) p)) = drop (length repo_path) p"
    and "repo_path @ split_path (str_rel (drop (length repo_path) p)) = p"
    by simp_all
  have "list_all (\<lambda>c. c \<noteq> [] \<and> c \<noteq> ''..'' \<and> c \<noteq> ''.'') rel"
    using rel(2) by (induction rel) (simp_all add: clean_name_def)
  with p s show "within_root (str_rel (drop (length repo_path) p))"
    by (simp add: within_root_def)
qed

text \<open>Moving the cursor stays below the root.\<close>

lemma under_root_child:
  "under_root repo_path cur \<Longrightarrow> clean_name n \<Longrightarrow>
   under_root repo_path (cur @ [n]) \<and> cur @ [n] \<noteq> repo_path"
  by (auto simp: under_root_def prefix_def)

lemma under_root_parent:
  assumes "under_root repo_path cur" and "cur \<noteq> repo_path"
  shows "under_root repo_path (parent cur)"
proof -
  from assms(1) obtain rel where cur: "cur = repo_path @ rel" and clean: "list_all clean_name rel"
    by (auto simp: under_root_def prefix_def)
  from cur assms(2) have "rel \<noteq> []"
    by auto
  note rel = this clean
  from rel(2) have "list_all clean_name (butlast rel)"
    by (simp add: list_all_iff in_set_butlastD)
  with cur rel(1) show ?thesis
    by (simp add: under_root_def parent_def butlast_append)
qed

lemma dir_entries_clean:
  assumes "listing_ok fs" and "(n, k) \<in> set (dir_entries fs cur)"
  shows "clean_name n"
proof (cases "fs cur")
  case Denied
  with assms(2) show ?thesis by (simp add: dir_entries_def)
next
  case (Listed es)
  with assms(2) have "(n, k) \<in> set es" by (simp add: dir_entries_def)
  moreover from assms(1) Listed have "list_all (\<lambda>e. clean_name (fst e)) es"
    by (simp add: listing_ok_def)
  ultimately show ?thesis by (auto simp: list_all_iff)
qed

lemma index_map_items:
  assumes "listing_ok fs" and "under_root repo_path cur" and "(t, target, label) \<in> set (index_map fs repo_path cur)"
  shows "(t = Control \<and> label = ''..'' \<longrightarrow> target = Some (parent cur) \<and> cur \<noteq> repo_path)
       \<and> (t \<noteq> Control \<longrightarrow> (\<exists>p. target = Some p \<and> under_root repo_path p \<and> p \<noteq> repo_path))"
proof -
  have fin: "finish_label \<noteq> ''..''"
    by (simp add: finish_label_def)
  from assms(3) consider
      (c) "(t, target, label) \<in> set (controls repo_path cur)"
    | (e) n k where "(n, k) \<in> set (dir_entries fs cur)" "target = Some (cur @ [n])" "t \<noteq> Control"
    by (auto simp: index_map_def)
  then show ?thesis
  proof cases
    case c
    with fin show ?thesis by (auto simp: controls_def split: if_splits)
  next
    case e
    from dir_entries_clean [OF assms(1) e(1)] have "clean_name n" .
    from under_root_child [OF assms(2) this] e show ?thesis by simp
  qed
qed

text \<open>One turn of the browser keeps the invariant and changes the selection in one of three ways.\<close>

lemma file_chosen_ok:
  assumes "browser_ok repo_path st" and "under_root repo_path f" and "f \<noteq> repo_path"
    and "file_chosen repo_path f st = Continue st1"
  shows "browser_ok repo_path st1"
    and "selected st1 = selected st \<or> (f \<notin> set (selected st) \<and> selected st1 = selected st @ [f])"
  using assms
  by (auto simp: file_chosen_def browser_ok_def relative_to_def under_root_def split: if_splits)

lemma remove_last_ok:
  assumes "browser_ok repo_path st" and "remove_last repo_path st = Continue st1"
  shows "browser_ok repo_path st1"
    and "selected st1 = selected st \<or> (selected st \<noteq> [] \<and> selected st1 = butlast (selected st))"
proof -
  have d: "distinct xs \<Longrightarrow> distinct (butlast xs)" for xs :: "Path list"
    by (simp add: distinct_butlast)
  have l: "list_all P xs \<Longrightarrow> list_all P (butlast xs)" for P and xs :: "Path list"
    by (simp add: list_all_iff in_set_butlastD)
  from assms show "browser_ok repo_path st1"
    by (auto simp: remove_last_def browser_ok_def d l split: if_splits sum.splits)
  from assms show "selected st1 = selected st \<or> (selected st \<noteq> [] \<and> selected st1 = butlast (selected st))"
    by (auto simp: remove_last_def split: if_splits sum.splits)
qed

lemma finish_chosen_ok:
  "finish_chosen repo_path confirm st = Continue st1 \<Longrightarrow> st1 = st"
  "finish_chosen repo_path confirm st = Finished res \<Longrightarrow>
     res = map (\<lambda>p. str_rel (drop (length repo_path) p)) (selected st)"
  by (auto simp: finish_chosen_def relative_strs_def split: if_splits sum.splits)

lemma browser_ok_move:
  "browser_ok repo_path st \<Longrightarrow> under_root repo_path p \<Longrightarrow> browser_ok repo_path (st\<lparr>current := p\<rparr>)"
  by (simp add: browser_ok_def)

lemma browse_step_continue:
  assumes "listing_ok fs" and "browser_ok repo_path st"
    and "browse_step fs repo_path st inp = Continue st1"
  shows "browser_ok repo_path st1
       \<and> (selected st1 = selected st
          \<or> (\<exists>f. f \<notin> set (selected st) \<and> selected st1 = selected st @ [f])
          \<or> (selected st \<noteq> [] \<and> selected st1 = butlast (selected st)))"
proof -
  let ?goal = "browser_ok repo_path st1
       \<and> (selected st1 = selected st
          \<or> (\<exists>f. f \<notin> set (selected st) \<and> selected st1 = selected st @ [f])
          \<or> (selected st \<noteq> [] \<and> selected st1 = butlast (selected st)))"
  have cur: "under_root repo_path (current st)"
    using assms(2) by (simp add: browser_ok_def)
  have same: "st1 = st \<Longrightarrow> ?goal"
    using assms(2) by simp
  have removed: "remove_last repo_path st = Continue st1 \<Longrightarrow> ?goal"
    using remove_last_ok [OF assms(2)] by blast
  let ?pick = "\<lambda>item. case item of
                    (Control, target, label) \<Rightarrow>
                      if label = ''..'' then Continue (st\<lparr>current := the target\<rparr>)
                      else finish_chosen repo_path (snd inp) st
                  | (Dir, target, label) \<Rightarrow> Continue (st\<lparr>current := the target\<rparr>)
                  | (File, target, label) \<Rightarrow> file_chosen repo_path (the target) st"
  have indexed: ?goal
    if num: "1 \<le> num" "num \<le> int (length (index_map fs repo_path (current st)))"
      and step0: "?pick (index_map fs repo_path (current st) ! nat (num - 1)) = Continue st1"
    for num
  proof -
    obtain t target label where item: "index_map fs repo_path (current st) ! nat (num - 1) = (t, target, label)"
      by (cases "index_map fs repo_path (current st) ! nat (num - 1)") auto
    from step0 item have step: "?pick (t, target, label) = Continue st1"
      by simp
    from num have "nat (num - 1) < length (index_map fs repo_path (current st))"
      by simp
    then have "index_map fs repo_path (current st) ! nat (num - 1) \<in> set (index_map fs repo_path (current st))"
      by (rule nth_mem)
    with item have mem: "(t, target, label) \<in> set (index_map fs repo_path (current st))"
      by simp
    note items = index_map_items [OF assms(1) cur mem]
    show ?thesis
    proof (cases t)
      case Control
      show ?thesis
      proof (cases "label = ''..''")
        case True
        with Control items have "target = Some (parent (current st))" and "current st \<noteq> repo_path"
          by simp_all
        with Control True step under_root_parent [OF cur] browser_ok_move [OF assms(2)]
        show ?thesis by auto
      next
        case False
        with Control step have "finish_chosen repo_path (snd inp) st = Continue st1"
          by simp
        from finish_chosen_ok(1) [OF this] same show ?thesis by simp
      qed
    next
      case Dir
      with items obtain p where "target = Some p" "under_root repo_path p"
        by auto
      with Dir step browser_ok_move [OF assms(2)] show ?thesis by auto
    next
      case File
      with items obtain p where p: "target = Some p" "under_root repo_path p" "p \<noteq> repo_path"
        by auto
      with File step have "file_chosen repo_path p st = Continue st1"
        by simp
      from file_chosen_ok [OF assms(2) p(2,3) this] show ?thesis by blast
    qed
  qed
  have "st1 = st \<or> remove_last repo_path st = Continue st1
        \<or> (\<exists>num. 1 \<le> num \<and> num \<le> int (length (index_map fs repo_path (current st)))
                 \<and> ?pick (index_map fs repo_path (current st) ! nat (num - 1)) = Continue st1)"
    using assms(3) unfolding browse_step_def Let_def
    by (simp split: if_splits sum.splits option.splits add: not_less) blast
  with same removed indexed show ?thesis
    by blast
qed

lemma browse_step_finished:
  assumes "browse_step fs repo_path st inp = Finished res"
  shows "res = map (\<lambda>p. str_rel (drop (length repo_path) p)) (selected st)"
  using assms
  unfolding browse_step_def Let_def
  by (auto split: if_splits sum.splits option.splits prod.splits tag.splits
           simp: remove_last_def file_chosen_def dest: finish_chosen_ok(2))

lemma subseq_after_step:
  assumes "b = a \<or> (\<exists>f. f \<notin> set a \<and> b = a @ [f]) \<or> (a \<noteq> [] \<and> b = butlast a)"
  shows "subseq (b @ rest) (a @ (if length a < length b then [last b] else []) @ rest)"
proof -
  from assms consider (same) "b = a" | (app) f where "b = a @ [f]" | (pop) "a \<noteq> []" "b = butlast a"
    by blast
  then show ?thesis
  proof cases
    case same
    then show ?thesis by simp
  next
    case app
    then show ?thesis by simp
  next
    case pop
    have "subseq (butlast a) a"
      using pop(1) by (metis append_butlast_last_id subseq_order.order_refl subseq_rev_drop_many list_emb_append2 append_Nil2)
    then have "subseq (butlast a @ rest) (a @ rest)"
      by (simp add: list_emb_append_mono)
    with pop show ?thesis by simp
  qed
qed

lemma browse_loop_result:
  assumes "listing_ok fs"
  shows "browser_ok repo_path st \<Longrightarrow> browse_loop fs repo_path st inps = Some (Inr res) \<Longrightarrow>
         \<exists>sel. res = map (\<lambda>p. str_rel (drop (length repo_path) p)) sel
              \<and> distinct sel
              \<and> list_all (\<lambda>p. under_root repo_path p \<and> p \<noteq> repo_path) sel
              \<and> subseq sel (selected st @ appended fs repo_path st inps)"
proof (induction inps arbitrary: st)
  case Nil
  then show ?case by simp
next
  case (Cons inp inps)
  show ?case
  proof (cases "browse_step fs repo_path st inp")
    case (Continue st1)
    from browse_step_continue [OF assms Cons.prems(1) Continue]
    have ok: "browser_ok repo_path st1"
      and change: "selected st1 = selected st
          \<or> (\<exists>f. f \<notin> set (selected st) \<and> selected st1 = selected st @ [f])
          \<or> (selected st \<noteq> [] \<and> selected st1 = butlast (selected st))"
      by blast+
    from Cons.prems(2) Continue have "browse_loop fs repo_path st1 inps = Some (Inr res)"
      by simp
    from Cons.IH [OF ok this] obtain sel where sel:
      "res = map (\<lambda>p. str_rel (drop (length repo_path) p)) sel" "distinct sel"
      "list_all (\<lambda>p. under_root repo_path p \<and> p \<noteq> repo_path) sel"
      "subseq sel (selected st1 @ appended fs repo_path st1 inps)"
      by blast
    from subseq_after_step [OF change, of "appended fs repo_path st1 inps"] Continue
    have "subseq (selected st1 @ appended fs repo_path st1 inps)
                 (selected st @ appended fs repo_path st (inp # inps))"
      by simp
    with sel(4) have "subseq sel (selected st @ appended fs repo_path st (inp # inps))"
      by (rule subseq_order.order_trans)
    with sel(1-3) show ?thesis by blast
  next
    case (Finished strs)
    with Cons.prems(2) have "strs = res" by simp
    with browse_step_finished [OF Finished]
    have "res = map (\<lambda>p. str_rel (drop (length repo_path) p)) (selected st)"
      by simp
    moreover from Cons.prems(1) have "distinct (selected st)"
      and "list_all (\<lambda>p. under_root repo_path p \<and> p \<noteq> repo_path) (selected st)"
      by (simp_all add: browser_ok_def)
    moreover have "subseq (selected st) (selected st @ appended fs repo_path st (inp # inps))"
      by (rule prefix_imp_subseq) simp
    ultimately show ?thesis by blast
  next
    case (Crash e)
    with Cons.prems(2) show ?thesis by simp
  qed
qed

lemma browser_ok_start: "browser_ok repo_path \<lparr>current = repo_path, selected = [], visited_files = {}\<rparr>"
  by (simp add: browser_ok_def under_root_def)

lemma listing_ok_tree0: "listing_ok tree0"
  by (auto simp: listing_ok_def tree0_def clean_name_def split: if_splits)

text \<open>
  C6. Whenever the browser returns a list, after any sequence of answers and in any
  directory tree whose listings contain ordinary names, the list has no duplicates; every
  entry is a relative path whose components are non-empty and are neither \<^verbatim>\<open>..\<close> nor
  \<^verbatim>\<open>.\<close>, so it lies within the repository root; and the entries, read as paths below
  the root, are among the files the run appended to the selection, in the order in which
  it appended them.
\<close>

theorem returned_selection_is_clean:
  assumes "listing_ok fs"
    and "browse_and_select_files fs repo_path inps = Some (Inr res)"
  shows "distinct res
       \<and> list_all within_root res
       \<and> subseq (map (\<lambda>r. repo_path @ split_path r) res)
            (appended fs repo_path \<lparr>current = repo_path, selected = [], visited_files = {}\<rparr> inps)"
proof -
  let ?start = "\<lparr>current = repo_path, selected = [], visited_files = {}\<rparr>"
  let ?str = "\<lambda>p. str_rel (drop (length repo_path) p)"
  from assms(2) have "browse_loop fs repo_path ?start inps = Some (Inr res)"
    by (simp add: browse_and_select_files_def)
  from browse_loop_result [OF assms(1) browser_ok_start this]
  obtain sel where res: "res = map ?str sel" and d: "distinct sel"
    and below: "list_all (\<lambda>p. under_root repo_path p \<and> p \<noteq> repo_path) sel"
    and ordered: "subseq sel (appended fs repo_path ?start inps)"
    by auto
  from below have anchored: "map (\<lambda>r. repo_path @ split_path r) (map ?str sel) = sel"
    by (induction sel) (simp_all add: relative_string_splits(2))
  from below have within: "list_all within_root (map ?str sel)"
    by (induction sel) (simp_all add: relative_string_splits(3))
  from d anchored have "distinct (map ?str sel)"
    by (metis distinct_map)
  with res anchored within ordered show ?thesis by simp
qed

theorem returned_selection_is_clean_witness:
  "browse_and_select_files tree0 [''r''] [(''3'', False), (''2'', False), (''3'', False), (''2'', True)]
     = Some (Inr [''a.txt'', ''sub/b.txt''])
   \<and> distinct [''a.txt'', ''sub/b.txt'']
   \<and> list_all within_root [''a.txt'', ''sub/b.txt'']
   \<and> subseq [[''r'', ''a.txt''], [''r'', ''sub'', ''b.txt'']]
        (appended tree0 [''r''] \<lparr>current = [''r''], selected = [], visited_files = {}\<rparr>
           [(''3'', False), (''2'', False), (''3'', False), (''2'', True)])"
proof -
  have run: "browse_and_select_files tree0 [''r''] [(''3'', False), (''2'', False), (''3'', False), (''2'', True)]
               = Some (Inr [''a.txt'', ''sub/b.txt''])"
    by code_simp
  have parts: "map (\<lambda>r. [''r''] @ split_path r) [''a.txt'', ''sub/b.txt''] =
                 [[''r'', ''a.txt''], [''r'', ''sub'', ''b.txt'']]"
    by code_simp
  from returned_selection_is_clean [OF listing_ok_tree0 run] run parts show ?thesis
    by simp
qed

end
